theory Spec2Isabelle
  imports Complex_Main "HOL-Library.Word" "HOL-Library.Sublist"
begin

unbundle bit_operations_syntax

section \<open>JavaScript values used by email-case.jsx\<close>

text \<open>
  A JavaScript string is a sequence of 16-bit code units; \<open>str[i]\<close>, \<open>str.length\<close> and
  \<open>str.split("")\<close> all work on code units.  A BigInt is an \<open>int\<close>.
\<close>

type_synonym code_unit = "16 word"
type_synonym jsstring = "code_unit list"

definition js :: "string \<Rightarrow> jsstring" where
  "js s = map of_char s"

text \<open>
  A JavaScript Number, as far as the program looks at it: the program only compares
  numbers, takes a minimum and converts integers, so a finite number is kept as the
  rational it denotes and no rounding is involved.
\<close>

datatype number = NaN | PosInfinity | NegInfinity | Finite rat

datatype js_error = RangeError | TypeError

text \<open>
  The result of running a piece of the program: it returns a value, it throws, or
  (for the sampling loop) it is still running when the supplied random draws are used up.
\<close>

datatype 'a run = Hang | Throw js_error | Done 'a

definition isFinite :: "number \<Rightarrow> bool" where
  "isFinite n = (case n of Finite r \<Rightarrow> True | _ \<Rightarrow> False)"

definition isInteger :: "number \<Rightarrow> bool" where
  "isInteger n = (case n of Finite r \<Rightarrow> of_int \<lfloor>r\<rfloor> = r | _ \<Rightarrow> False)"

definition num_le :: "number \<Rightarrow> rat \<Rightarrow> bool" where
  \<comment> \<open>\<open>n <= c\<close>; every comparison with NaN is false\<close>
  "num_le n c = (case n of NaN \<Rightarrow> False | PosInfinity \<Rightarrow> False | NegInfinity \<Rightarrow> True
                 | Finite r \<Rightarrow> r \<le> c)"

definition num_ge :: "number \<Rightarrow> rat \<Rightarrow> bool" where
  \<comment> \<open>\<open>n >= c\<close>\<close>
  "num_ge n c = (case n of NaN \<Rightarrow> False | PosInfinity \<Rightarrow> True | NegInfinity \<Rightarrow> False
                 | Finite r \<Rightarrow> c \<le> r)"

definition num_lt :: "number \<Rightarrow> rat \<Rightarrow> bool" where
  \<comment> \<open>\<open>n < c\<close>\<close>
  "num_lt n c = (case n of NaN \<Rightarrow> False | PosInfinity \<Rightarrow> False | NegInfinity \<Rightarrow> True
                 | Finite r \<Rightarrow> r < c)"

definition Math_min :: "number \<Rightarrow> rat \<Rightarrow> number" where
  \<comment> \<open>\<open>Math.min(n, c)\<close> for a finite constant \<open>c\<close>\<close>
  "Math_min n c = (case n of NaN \<Rightarrow> NaN | PosInfinity \<Rightarrow> Finite c | NegInfinity \<Rightarrow> NegInfinity
                   | Finite r \<Rightarrow> Finite (min r c))"

definition BigInt :: "number \<Rightarrow> js_error + int" where
  \<comment> \<open>\<open>BigInt(x)\<close> throws a RangeError unless \<open>x\<close> is an integer\<close>
  "BigInt n = (case n of Finite r \<Rightarrow> (if of_int \<lfloor>r\<rfloor> = r then Inr \<lfloor>r\<rfloor> else Inl RangeError)
               | _ \<Rightarrow> Inl RangeError)"

definition bigint_rem :: "int \<Rightarrow> int \<Rightarrow> js_error + int" where
  \<comment> \<open>\<open>a % b\<close> on BigInts: truncating remainder, RangeError when dividing by zero\<close>
  "bigint_rem a b = (if b = 0 then Inl RangeError else Inr (sgn a * (\<bar>a\<bar> mod \<bar>b\<bar>)))"

subsection \<open>Case conversion of the host\<close>

text \<open>
  \<open>String.prototype.toUpperCase\<close> and \<open>toLowerCase\<close> belong to the host, not to the
  program, and their tables cover all of Unicode.  The host is therefore a parameter of
  the model: \<open>hostUpper H\<close> and \<open>hostLower H\<close> are its two conversions, as functions on
  strings.  What is written out here is what every host does on the code units U+0000 to
  U+00FF (Basic Latin and Latin-1 Supplement), where the Unicode full case mappings work
  unit by unit: a-z and A-Z, the accented letters U+00E0..U+00FE and U+00C0..U+00DE
  (without the signs U+00F7 and U+00D7), the micro sign (upper case U+039C), the sharp s
  U+00DF (upper case the two units "SS") and y with diaeresis U+00FF (upper case U+0178).
  A string with a code unit above U+00FF is converted by the parameter.
\<close>

record host =
  hostUpper :: "jsstring \<Rightarrow> jsstring"
  hostLower :: "jsstring \<Rightarrow> jsstring"

definition upperUnit :: "host \<Rightarrow> code_unit \<Rightarrow> jsstring" where
  \<comment> \<open>the upper case of the one-unit string \<open>c\<close>\<close>
  "upperUnit H c =
     (if 0x61 \<le> c \<and> c \<le> 0x7A then [c - 0x20]
      else if c = 0xB5 then [0x39C]
      else if c = 0xDF then [0x53, 0x53]
      else if 0xE0 \<le> c \<and> c \<le> 0xFE \<and> c \<noteq> 0xF7 then [c - 0x20]
      else if c = 0xFF then [0x178]
      else if c \<le> 0xFF then [c]
      else hostUpper H [c])"

definition lowerUnit :: "host \<Rightarrow> code_unit \<Rightarrow> jsstring" where
  \<comment> \<open>the lower case of the one-unit string \<open>c\<close>\<close>
  "lowerUnit H c =
     (if 0x41 \<le> c \<and> c \<le> 0x5A then [c + 0x20]
      else if 0xC0 \<le> c \<and> c \<le> 0xDE \<and> c \<noteq> 0xD7 then [c + 0x20]
      else if c \<le> 0xFF then [c]
      else hostLower H [c])"

definition toUpperCase :: "host \<Rightarrow> jsstring \<Rightarrow> jsstring" where
  "toUpperCase H s =
     (if list_all (\<lambda>c. c \<le> 0xFF) s then concat (map (upperUnit H) s) else hostUpper H s)"

definition toLowerCase :: "host \<Rightarrow> jsstring \<Rightarrow> jsstring" where
  "toLowerCase H s =
     (if list_all (\<lambda>c. c \<le> 0xFF) s then concat (map (lowerUnit H) s) else hostLower H s)"

subsection \<open>The regular expression of line 10\<close>

text \<open>
  Regular expressions over code units, as far as \<open>/.+@.+\..+/\<close> needs them, matched
  with derivatives.  \<open>Dot\<close> is the \<open>.\<close> of a pattern without flags: any code unit
  except the line terminators U+000A, U+000D, U+2028 and U+2029.  \<open>AnyUnit\<close> is used
  only to express that \<open>test\<close> searches for a match anywhere in the string.
\<close>

datatype rx = Nul | Eps | Dot | AnyUnit | Lit code_unit | Alt rx rx | Seq rx rx | Star rx

definition Plus :: "rx \<Rightarrow> rx" where
  "Plus r = Seq r (Star r)"

definition lineTerminator :: "code_unit \<Rightarrow> bool" where
  "lineTerminator c \<longleftrightarrow> c = 0x0A \<or> c = 0x0D \<or> c = 0x2028 \<or> c = 0x2029"

fun nullable :: "rx \<Rightarrow> bool" where
  "nullable Nul = False"
| "nullable Eps = True"
| "nullable Dot = False"
| "nullable AnyUnit = False"
| "nullable (Lit a) = False"
| "nullable (Alt r s) = (nullable r \<or> nullable s)"
| "nullable (Seq r s) = (nullable r \<and> nullable s)"
| "nullable (Star r) = True"

fun deriv :: "code_unit \<Rightarrow> rx \<Rightarrow> rx" where
  "deriv c Nul = Nul"
| "deriv c Eps = Nul"
| "deriv c Dot = (if lineTerminator c then Nul else Eps)"
| "deriv c AnyUnit = Eps"
| "deriv c (Lit a) = (if c = a then Eps else Nul)"
| "deriv c (Alt r s) = Alt (deriv c r) (deriv c s)"
| "deriv c (Seq r s) =
     (if nullable r then Alt (Seq (deriv c r) s) (deriv c s) else Seq (deriv c r) s)"
| "deriv c (Star r) = Seq (deriv c r) (Star r)"

definition matches :: "rx \<Rightarrow> jsstring \<Rightarrow> bool" where
  "matches r s = nullable (fold deriv s r)"

definition test :: "rx \<Rightarrow> jsstring \<Rightarrow> bool" where
  \<comment> \<open>\<open>r.test(s)\<close>: some substring of \<open>s\<close> matches \<open>r\<close>\<close>
  "test r s = matches (Seq (Star AnyUnit) (Seq r (Star AnyUnit))) s"

definition EMAIL_REGEX :: rx where
  "EMAIL_REGEX = Seq (Plus Dot) (Seq (Lit 0x40) (Seq (Plus Dot) (Seq (Lit 0x2E) (Plus Dot))))"

section \<open>Helpers (lines 12 to 45)\<close>

definition isLetter :: "code_unit \<Rightarrow> bool" where
  \<comment> \<open>\<open>(ch >= "A" && ch <= "Z") || (ch >= "a" && ch <= "z")\<close>\<close>
  "isLetter ch \<longleftrightarrow> (0x41 \<le> ch \<and> ch \<le> 0x5A) \<or> (0x61 \<le> ch \<and> ch \<le> 0x7A)"

definition letterPositions :: "jsstring \<Rightarrow> nat list" where
  "letterPositions str = filter (\<lambda>i. isLetter (str ! i)) [0..<length str]"

text \<open>
  \<open>flipCases\<close>: \<open>arr\<close> is the array of one-unit strings made by \<open>split("")\<close>; an entry
  becomes whatever string the case conversion returns.  Reading \<open>arr[idx]\<close> outside the
  array gives \<open>undefined\<close>, and calling \<open>toUpperCase\<close> on it throws a TypeError.
\<close>

definition flipEntry :: "host \<Rightarrow> jsstring \<Rightarrow> jsstring" where
  \<comment> \<open>\<open>ch === ch.toUpperCase() ? ch.toLowerCase() : ch.toUpperCase()\<close>\<close>
  "flipEntry H ch = (if ch = toUpperCase H ch then toLowerCase H ch else toUpperCase H ch)"

definition flipAt :: "host \<Rightarrow> nat list \<Rightarrow> int \<Rightarrow> nat \<Rightarrow> jsstring list \<Rightarrow> js_error + jsstring list" where
  "flipAt H positions msk b arr =
     (let on = (drop_bit b msk) AND 1 in
      if on = 1 then
        (let idx = positions ! b in
         if idx < length arr then Inr (arr[idx := flipEntry H (arr ! idx)])
         else Inl TypeError)
      else Inr arr)"

fun flipLoop :: "host \<Rightarrow> nat list \<Rightarrow> int \<Rightarrow> nat list \<Rightarrow> jsstring list \<Rightarrow> js_error + jsstring list" where
  "flipLoop H positions msk [] arr = Inr arr"
| "flipLoop H positions msk (b # bs) arr =
     (case flipAt H positions msk b arr of
        Inl e \<Rightarrow> Inl e
      | Inr arr' \<Rightarrow> flipLoop H positions msk bs arr')"

definition flipCases :: "host \<Rightarrow> jsstring \<Rightarrow> nat list \<Rightarrow> int \<Rightarrow> js_error + jsstring" where
  "flipCases H base positions msk =
     (case flipLoop H positions msk [0..<length positions] (map (\<lambda>c. [c]) base) of
        Inl e \<Rightarrow> Inl e
      | Inr arr \<Rightarrow> Inr (concat arr))"

text \<open>
  The random source.  \<open>Math.floor(Math.random() * Number.MAX_SAFE_INTEGER)\<close> is an
  integer from 0 up to, and not including, \<open>2^53 - 1\<close>, whatever \<open>Math.random()\<close>
  returns in \<open>[0, 1)\<close>: one draw is a 53-bit word, and the draws of a run are a list.
\<close>

type_synonym draw = "53 word"

definition randomBigInt :: "draw \<Rightarrow> int" where
  \<comment> \<open>\<open>BigInt.asUintN(64, BigInt(Math.floor(Math.random() * Number.MAX_SAFE_INTEGER)))\<close>\<close>
  "randomBigInt u = take_bit 64 (uint u)"

definition set_add :: "int \<Rightarrow> int list \<Rightarrow> int list" where
  \<comment> \<open>\<open>set.add(pick)\<close>: a Set keeps its members in insertion order\<close>
  "set_add x s = (if x \<in> set s then s else s @ [x])"

fun sampleLoop :: "int \<Rightarrow> int \<Rightarrow> draw list \<Rightarrow> int list \<Rightarrow> int list run" where
  "sampleLoop maxExclusive k rs s =
     (if int (length s) < k then
        (case rs of
           [] \<Rightarrow> Hang
         | r # rs' \<Rightarrow>
             (case bigint_rem (randomBigInt r) maxExclusive of
                Inl e \<Rightarrow> Throw e
              | Inr pick \<Rightarrow> sampleLoop maxExclusive k rs' (set_add pick s)))
      else Done s)"

definition sampleUniqueBigInt :: "int \<Rightarrow> int \<Rightarrow> draw list \<Rightarrow> int list run" where
  "sampleUniqueBigInt maxExclusive k rs = sampleLoop maxExclusive k rs []"

section \<open>The component (lines 47 to 108)\<close>

text \<open>
  The state of the component that \<open>generate\<close> reads and writes.  \<open>qty\<close> holds
  \<open>Number(qty)\<close>; \<open>customIndexes\<close> holds the numbers that
  \<open>customIndexes.split(/[ ,]+/).map(s => s.trim()).filter(Boolean).map(Number)\<close> yields,
  one per token of the text field.
\<close>

record app_state =
  email :: jsstring
  qty :: number
  variations :: "jsstring list"
  useCustom :: bool
  customIndexes :: "number list"

definition allLetterPositions :: "app_state \<Rightarrow> nat list" where
  "allLetterPositions st = letterPositions (email st)"

definition validIndex :: "jsstring \<Rightarrow> number \<Rightarrow> bool" where
  \<comment> \<open>\<open>Number.isInteger(n) && n >= 0 && n < email.length\<close>\<close>
  "validIndex e n \<longleftrightarrow> isInteger n \<and> num_ge n 0 \<and> num_lt n (of_nat (length e))"

definition toIndex :: "number \<Rightarrow> nat" where
  "toIndex n = (case n of Finite r \<Rightarrow> nat \<lfloor>r\<rfloor> | _ \<Rightarrow> 0)"

definition customPositions :: "app_state \<Rightarrow> nat list" where
  "customPositions st =
     (if \<not> useCustom st then allLetterPositions st
      else
        (let parts = filter (validIndex (email st)) (customIndexes st) in
         if parts \<noteq> [] then map toIndex parts else allLetterPositions st))"

definition lettersCount :: "app_state \<Rightarrow> nat" where
  "lettersCount st = length (customPositions st)"

definition totalPossible :: "app_state \<Rightarrow> int" where
  \<comment> \<open>\<open>1n << BigInt(lettersCount)\<close>\<close>
  "totalPossible st = push_bit (lettersCount st) 1"

text \<open>Lines 92 to 101: the masks, enumerated for a small space and sampled otherwise.\<close>

definition picksOf :: "int \<Rightarrow> int \<Rightarrow> draw list \<Rightarrow> int list run" where
  "picksOf mx want rs =
     (if mx \<le> 100000 then
        (let upto = nat (if mx < want then mx else want) in
         Done (map int [0..<upto]))
      else sampleUniqueBigInt mx want rs)"

fun mapThrow :: "('a \<Rightarrow> js_error + 'b) \<Rightarrow> 'a list \<Rightarrow> js_error + 'b list" where
  "mapThrow f [] = Inr []"
| "mapThrow f (x # xs) =
     (case f x of
        Inl e \<Rightarrow> Inl e
      | Inr y \<Rightarrow> (case mapThrow f xs of Inl e \<Rightarrow> Inl e | Inr ys \<Rightarrow> Inr (y # ys)))"

definition emailAlert :: string where
  "emailAlert = ''Please enter a valid email (e.g., name@example.com)''"

definition quantityAlert :: string where
  "quantityAlert = ''Quantity must be a positive number''"

text \<open>
  \<open>generate\<close> returns the alert it raised, if any, and the state it leaves; the draws
  are the values the random source delivers during the call, and \<open>H\<close> is the host's case
  conversion.
\<close>

definition generate :: "host \<Rightarrow> draw list \<Rightarrow> app_state \<Rightarrow> (string option \<times> app_state) run" where
  "generate H rs st =
     (if \<not> test EMAIL_REGEX (email st) then Done (Some emailAlert, st)
      else
        (let n = qty st in
         if \<not> isFinite n \<or> num_le n 0 then Done (Some quantityAlert, st)
         else
           (let mx = totalPossible st in
            case BigInt (Math_min n 5000) of
              Inl e \<Rightarrow> Throw e
            | Inr want \<Rightarrow>
                (case picksOf mx want rs of
                   Hang \<Rightarrow> Hang
                 | Throw e \<Rightarrow> Throw e
                 | Done picks \<Rightarrow>
                     (let base = email st; pos = customPositions st in
                      case mapThrow (flipCases H base pos) picks of
                        Inl e \<Rightarrow> Throw e
                      | Inr out \<Rightarrow> Done (None, st\<lparr>variations := out\<rparr>))))))"

section \<open>Notions used in the statements\<close>

text \<open>
  An array entry that is a single code unit of Basic Latin, the condition that all
  entries of an array are single units and those at the given positions are Basic Latin,
  the code units up to U+00FF whose case conversions are again such units, and a set of
  masks below a bound.
\<close>

definition asciiEntry :: "jsstring \<Rightarrow> bool" where
  "asciiEntry s \<longleftrightarrow> (\<exists>c. s = [c] \<and> c < 0x80)"

definition asciiAt :: "nat list \<Rightarrow> jsstring list \<Rightarrow> bool" where
  "asciiAt ps arr \<longleftrightarrow> (\<forall>s\<in>set arr. length s = 1) \<and> (\<forall>i\<in>set ps. i < length arr \<and> asciiEntry (arr ! i))"

definition latin1Plain :: "code_unit \<Rightarrow> bool" where
  "latin1Plain c \<longleftrightarrow> c \<le> 0xFF \<and> c \<noteq> 0xB5 \<and> c \<noteq> 0xDF \<and> c \<noteq> 0xFF"

definition maskSet :: "int \<Rightarrow> int list \<Rightarrow> bool" where
  "maskSet mx s \<longleftrightarrow> distinct s \<and> (\<forall>m\<in>set s. 0 \<le> m \<and> m < mx)"

text \<open>States of the component for the concrete scenarios: the default positions, and a
  custom list of indexes.\<close>

definition exampleState :: "string \<Rightarrow> number \<Rightarrow> app_state" where
  "exampleState e q = \<lparr>email = js e, qty = q, variations = [], useCustom = False, customIndexes = []\<rparr>"

definition customState :: "string \<Rightarrow> number \<Rightarrow> number list \<Rightarrow> app_state" where
  "customState e q idx = \<lparr>email = js e, qty = q, variations = [], useCustom = True, customIndexes = idx\<rparr>"

section \<open>The regular expression on examples\<close>

lemma email_regex_examples:
  "test EMAIL_REGEX (js ''name@example.com'')"
  "test EMAIL_REGEX (js '' a@b.c, '')"
  "\<not> test EMAIL_REGEX (js ''@b.c'')"
  "\<not> test EMAIL_REGEX (js ''a@.c'')"
  "\<not> test EMAIL_REGEX (js ''a@b.'')"
  "\<not> test EMAIL_REGEX (js ''a.b@c'')"
  "\<not> test EMAIL_REGEX (js ''a@b'' @ [0x0A] @ js ''.c'')"
  by code_simp+

section \<open>Rendering: \<open>flipCases\<close>\<close>

lemma flipAt_length:
  "flipAt H ps m b arr = Inr arr' \<Longrightarrow> length arr' = length arr"
  by (auto simp: flipAt_def Let_def split: if_splits)

lemma flipAt_total:
  "ps ! b < length arr \<Longrightarrow> \<exists>arr'. flipAt H ps m b arr = Inr arr'"
  by (simp add: flipAt_def Let_def)

lemma flipLoop_total:
  "\<forall>b\<in>set bs. ps ! b < length arr \<Longrightarrow>
   \<exists>arr'. flipLoop H ps m bs arr = Inr arr' \<and> length arr' = length arr"
proof (induction bs arbitrary: arr)
  case Nil
  then show ?case by simp
next
  case (Cons b bs)
  from Cons.prems obtain a1 where a1: "flipAt H ps m b arr = Inr a1"
    using flipAt_total [of ps b arr H m] by auto
  then have len: "length a1 = length arr" by (rule flipAt_length)
  with Cons.prems have "\<forall>b\<in>set bs. ps ! b < length a1" by simp
  from Cons.IH [OF this] a1 len show ?case by auto
qed

lemma flipLoop_length:
  "flipLoop H ps m bs arr = Inr arr' \<Longrightarrow> length arr' = length arr"
proof (induction bs arbitrary: arr)
  case Nil
  then show ?case by simp
next
  case (Cons b bs)
  then show ?case
    by (auto split: sum.splits dest: flipAt_length)
qed

lemma flipAt_frame:
  "flipAt H ps m b arr = Inr arr' \<Longrightarrow> i \<noteq> ps ! b \<Longrightarrow> arr' ! i = arr ! i"
  by (auto simp: flipAt_def Let_def split: if_splits)

lemma flipLoop_frame:
  "flipLoop H ps m bs arr = Inr arr' \<Longrightarrow> \<forall>b\<in>set bs. i \<noteq> ps ! b \<Longrightarrow> arr' ! i = arr ! i"
proof (induction bs arbitrary: arr)
  case Nil
  then show ?case by simp
next
  case (Cons b bs)
  then show ?case
    by (auto split: sum.splits dest: flipAt_frame)
qed

text \<open>Case conversion keeps a Basic Latin unit a single Basic Latin unit.\<close>

lemma upperUnit_ascii: "c < 0x80 \<Longrightarrow> \<exists>d. upperUnit H c = [d] \<and> d < 0x80"
  unfolding upperUnit_def by (simp; unat_arith)

lemma lowerUnit_ascii: "c < 0x80 \<Longrightarrow> \<exists>d. lowerUnit H c = [d] \<and> d < 0x80"
  unfolding lowerUnit_def by (simp; unat_arith)

lemma flipEntry_unit:
  "c \<le> 0xFF \<Longrightarrow>
   flipEntry H [c] = (if [c] = upperUnit H c then lowerUnit H c else upperUnit H c)"
proof -
  assume c: "c \<le> 0xFF"
  then have "toUpperCase H [c] = upperUnit H c" and "toLowerCase H [c] = lowerUnit H c"
    by (simp_all add: toUpperCase_def toLowerCase_def)
  then show ?thesis by (simp only: flipEntry_def)
qed

lemma flipEntry_ascii: "asciiEntry s \<Longrightarrow> asciiEntry (flipEntry H s)"
proof -
  assume "asciiEntry s"
  then obtain c where s: "s = [c]" and c: "c < 0x80" by (auto simp: asciiEntry_def)
  from c have "c \<le> 0xFF" by unat_arith
  then have "flipEntry H s = (if [c] = upperUnit H c then lowerUnit H c else upperUnit H c)"
    unfolding s by (rule flipEntry_unit)
  with upperUnit_ascii [OF c, of H] lowerUnit_ascii [OF c, of H] show ?thesis
    by (auto simp: asciiEntry_def)
qed

lemma ascii_flips: "c < 0x80 \<Longrightarrow> asciiEntry ((flipEntry H ^^ k) [c])"
  by (induction k) (simp_all add: asciiEntry_def [of "[c]"] flipEntry_ascii)

text \<open>So does it keep the plain units of Latin-1 (all but U+00B5, U+00DF and U+00FF).\<close>

lemma latin1_flip:
  assumes "latin1Plain c"
  shows "\<exists>d. flipEntry H [c] = [d] \<and> latin1Plain d"
proof -
  from assms have c: "c \<le> 0xFF" "c \<noteq> 0xB5" "c \<noteq> 0xDF" "c \<noteq> 0xFF"
    by (simp_all add: latin1Plain_def)
  have up: "\<exists>d. upperUnit H c = [d] \<and> latin1Plain d"
    using c unfolding upperUnit_def latin1Plain_def by (simp; unat_arith)
  have lo: "\<exists>d. lowerUnit H c = [d] \<and> latin1Plain d"
    using c unfolding lowerUnit_def latin1Plain_def by (simp; unat_arith)
  from up lo show ?thesis unfolding flipEntry_unit [OF c(1)] by auto
qed

lemma latin1_flips:
  "latin1Plain c \<Longrightarrow> \<exists>d. (flipEntry H ^^ k) [c] = [d] \<and> latin1Plain d"
proof (induction k)
  case 0
  then show ?case by simp
next
  case (Suc k)
  then obtain d where "(flipEntry H ^^ k) [c] = [d]" and "latin1Plain d" by blast
  with latin1_flip [of d H] show ?case by simp
qed

text \<open>Positions that hold such units meet the proviso of \<open>flipCases_frame\<close> below.\<close>

lemma plain_positions_keep_units:
  "\<forall>i\<in>set ps. base ! i < 0x80 \<or> latin1Plain (base ! i) \<Longrightarrow>
   \<forall>i\<in>set ps. \<forall>k\<le>count_list ps i. length ((flipEntry H ^^ k) [base ! i]) = 1"
proof (intro ballI allI impI)
  fix i k assume "\<forall>i\<in>set ps. base ! i < 0x80 \<or> latin1Plain (base ! i)" and "i \<in> set ps"
  then have "base ! i < 0x80 \<or> latin1Plain (base ! i)" by blast
  then show "length ((flipEntry H ^^ k) [base ! i]) = 1"
  proof
    assume "base ! i < 0x80"
    from ascii_flips [OF this, where H = H and k = k] show ?thesis by (auto simp: asciiEntry_def)
  next
    assume "latin1Plain (base ! i)"
    from latin1_flips [OF this, where H = H and k = k] show ?thesis by auto
  qed
qed

lemma concat_units:
  "\<forall>s\<in>set arr. length s = 1 \<Longrightarrow> concat arr = map hd arr"
  by (induction arr) (auto simp: length_Suc_conv)

lemma flipAt_asciiAt:
  assumes "asciiAt ps arr" and "b < length ps" and "flipAt H ps m b arr = Inr arr'"
  shows "asciiAt ps arr'"
proof (cases "drop_bit b m AND 1 = 1")
  case False
  with assms show ?thesis by (simp add: flipAt_def)
next
  case True
  let ?idx = "ps ! b"
  from assms(1,2) have idx: "?idx < length arr" and asc: "asciiEntry (arr ! ?idx)"
    by (auto simp: asciiAt_def)
  from True idx assms(3) have arr': "arr' = arr[?idx := flipEntry H (arr ! ?idx)]"
    by (simp add: flipAt_def Let_def)
  have fe: "asciiEntry (flipEntry H (arr ! ?idx))" using asc by (rule flipEntry_ascii)
  then have len1: "length (flipEntry H (arr ! ?idx)) = 1" by (auto simp: asciiEntry_def)
  have "\<forall>s\<in>set arr'. length s = 1"
    using assms(1) len1 unfolding arr' asciiAt_def
    by (auto dest!: set_update_subset_insert [THEN subsetD])
  moreover have "\<forall>i\<in>set ps. i < length arr' \<and> asciiEntry (arr' ! i)"
  proof
    fix i assume i: "i \<in> set ps"
    with assms(1) have "i < length arr" and "asciiEntry (arr ! i)" by (auto simp: asciiAt_def)
    with fe show "i < length arr' \<and> asciiEntry (arr' ! i)"
      unfolding arr' by (cases "i = ?idx") simp_all
  qed
  ultimately show ?thesis by (simp add: asciiAt_def)
qed

lemma flipLoop_asciiAt:
  "asciiAt ps arr \<Longrightarrow> \<forall>b\<in>set bs. b < length ps \<Longrightarrow> flipLoop H ps m bs arr = Inr arr' \<Longrightarrow> asciiAt ps arr'"
proof (induction bs arbitrary: arr)
  case Nil
  then show ?case by simp
next
  case (Cons b bs)
  from Cons.prems(3) obtain a1 where a1: "flipAt H ps m b arr = Inr a1" and rest: "flipLoop H ps m bs a1 = Inr arr'"
    by (auto split: sum.splits)
  from Cons.prems(1,2) a1 have "asciiAt ps a1" by (auto intro: flipAt_asciiAt)
  with Cons.IH rest Cons.prems(2) show ?case by simp
qed

lemma flipCases_total:
  assumes "\<forall>i\<in>set ps. i < length base"
  shows "\<exists>v. flipCases H base ps m = Inr v"
proof -
  have "\<forall>b\<in>set [0..<length ps]. ps ! b < length (map (\<lambda>c. [c]) base)"
    using assms by simp
  from flipLoop_total [OF this, of H m] obtain arr
    where "flipLoop H ps m [0..<length ps] (map (\<lambda>c. [c]) base) = Inr arr" by auto
  then show ?thesis by (simp add: flipCases_def)
qed

text \<open>
  After the loop, the entry at index \<open>i\<close> is the character of the source flipped some
  number of times, at most as often as \<open>i\<close> occurs among the positions.
\<close>

lemma flipLoop_flips:
  assumes "flipLoop H ps m bs arr = Inr arr'"
    and "\<forall>i<length arr. \<exists>k. arr ! i = (flipEntry H ^^ k) [base ! i] \<and>
            k + count_list (map ((!) ps) bs) i \<le> n i"
  shows "\<forall>i<length arr. \<exists>k\<le>n i. arr' ! i = (flipEntry H ^^ k) [base ! i]"
  using assms
proof (induction bs arbitrary: arr)
  case Nil
  then show ?case by auto
next
  case (Cons b bs)
  from Cons.prems(1) obtain a1 where a1: "flipAt H ps m b arr = Inr a1"
    and rest: "flipLoop H ps m bs a1 = Inr arr'" by (auto split: sum.splits)
  have len: "length a1 = length arr" using a1 by (rule flipAt_length)
  have "\<exists>k. a1 ! i = (flipEntry H ^^ k) [base ! i] \<and> k + count_list (map ((!) ps) bs) i \<le> n i"
    if i: "i < length arr" for i
  proof -
    from Cons.prems(2) i obtain k where k: "arr ! i = (flipEntry H ^^ k) [base ! i]"
      and le: "k + count_list (map ((!) ps) (b # bs)) i \<le> n i" by blast
    show ?thesis
    proof (cases "a1 ! i = arr ! i")
      case True
      from le have "k + count_list (map ((!) ps) bs) i \<le> n i" by (simp split: if_splits)
      with True k show ?thesis by auto
    next
      case False
      with a1 have upd: "a1 = arr[ps ! b := flipEntry H (arr ! (ps ! b))]" and at: "i = ps ! b"
        by (auto simp: flipAt_def Let_def nth_list_update split: if_splits)
      from upd at i have "a1 ! i = flipEntry H (arr ! i)" by simp
      then have "a1 ! i = (flipEntry H ^^ Suc k) [base ! i]" by (simp add: k)
      moreover from le at have "Suc k + count_list (map ((!) ps) bs) i \<le> n i" by simp
      ultimately show ?thesis by blast
    qed
  qed
  then have "\<forall>i<length a1. \<exists>k. a1 ! i = (flipEntry H ^^ k) [base ! i] \<and>
      k + count_list (map ((!) ps) bs) i \<le> n i" by (simp add: len)
  from Cons.IH [OF rest this] len show ?case by simp
qed

lemma flipCases_frame:
  assumes rng: "\<forall>i\<in>set ps. i < length base"
    and unit: "\<forall>i\<in>set ps. \<forall>k\<le>count_list ps i. length ((flipEntry H ^^ k) [base ! i]) = 1"
  shows "\<exists>v. flipCases H base ps m = Inr v \<and> length v = length base \<and>
             (\<forall>i<length base. i \<notin> set ps \<longrightarrow> v ! i = base ! i)"
proof -
  let ?arr0 = "map (\<lambda>c. [c]) base"
  have "\<forall>b\<in>set [0..<length ps]. ps ! b < length ?arr0"
    using rng by simp
  from flipLoop_total [OF this, of H m] obtain arr
    where arr: "flipLoop H ps m [0..<length ps] ?arr0 = Inr arr" and len: "length arr = length base"
    by auto
  have "\<forall>i<length ?arr0. \<exists>k. ?arr0 ! i = (flipEntry H ^^ k) [base ! i] \<and>
      k + count_list (map ((!) ps) [0..<length ps]) i \<le> count_list ps i"
    by (auto simp: map_nth intro: exI [of _ 0])
  from flipLoop_flips [OF arr this]
  have flips: "\<forall>i<length base. \<exists>k\<le>count_list ps i. arr ! i = (flipEntry H ^^ k) [base ! i]"
    by simp
  have "length (arr ! i) = 1" if i: "i < length base" for i
  proof -
    from flips i obtain k where k: "k \<le> count_list ps i" "arr ! i = (flipEntry H ^^ k) [base ! i]"
      by blast
    show ?thesis
    proof (cases "i \<in> set ps")
      case True
      with unit k show ?thesis by simp
    next
      case False
      then have "count_list ps i = 0" by (simp add: count_list_0_iff)
      with k show ?thesis by simp
    qed
  qed
  then have "\<forall>s\<in>set arr. length s = 1" using len by (auto simp: in_set_conv_nth)
  then have cc: "concat arr = map hd arr" by (rule concat_units)
  have v: "flipCases H base ps m = Inr (map hd arr)"
    using arr cc by (simp add: flipCases_def)
  have "map hd arr ! i = base ! i" if "i < length base" "i \<notin> set ps" for i
  proof -
    have "\<forall>b\<in>set [0..<length ps]. i \<noteq> ps ! b" using that(2) by auto
    from flipLoop_frame [OF arr this] that(1) len show ?thesis by simp
  qed
  with v len show ?thesis by simp
qed

lemma mapThrow_Inr:
  "mapThrow f xs = Inr ys \<Longrightarrow> map Inr ys = map f xs"
  by (induction xs arbitrary: ys) (auto split: sum.splits)

lemma mapThrow_total:
  "\<forall>x\<in>set xs. \<exists>y. f x = Inr y \<Longrightarrow> \<exists>ys. mapThrow f xs = Inr ys"
  by (induction xs) (auto split: sum.splits)

lemma mapThrow_set:
  "mapThrow f xs = Inr ys \<Longrightarrow> v \<in> set ys \<Longrightarrow> \<exists>x\<in>set xs. f x = Inr v"
  by (induction xs arbitrary: ys) (auto split: sum.splits)

section \<open>Positions\<close>

lemma letterPositions_range:
  "i \<in> set (letterPositions s) \<Longrightarrow> i < length s \<and> isLetter (s ! i)"
  by (simp add: letterPositions_def)

lemma validIndex_toIndex:
  "validIndex e n \<Longrightarrow> toIndex n < length e"
proof (cases n)
  case (Finite r)
  assume "validIndex e n"
  with Finite have int: "of_int \<lfloor>r\<rfloor> = r" and nonneg: "0 \<le> r" and lt: "r < of_nat (length e)"
    by (simp_all add: validIndex_def isInteger_def num_ge_def num_lt_def)
  from lt have "\<lfloor>r\<rfloor> < int (length e)" by (simp add: floor_less_iff)
  moreover from nonneg have "0 \<le> \<lfloor>r\<rfloor>" by simp
  ultimately have "nat \<lfloor>r\<rfloor> < length e" by linarith
  then show ?thesis using Finite by (simp add: toIndex_def)
qed (simp_all add: validIndex_def isInteger_def)

lemma customPositions_range:
  "i \<in> set (customPositions st) \<Longrightarrow> i < length (email st)"
  by (auto simp: customPositions_def allLetterPositions_def Let_def letterPositions_range
      validIndex_toIndex split: if_splits)

lemma isLetter_ascii: "isLetter c \<Longrightarrow> c < 0x80"
  unfolding isLetter_def by unat_arith

lemma default_positions_ascii:
  "\<not> useCustom st \<Longrightarrow> i \<in> set (customPositions st) \<Longrightarrow> email st ! i < 0x80"
  by (simp add: customPositions_def allLetterPositions_def letterPositions_def isLetter_ascii)

lemma customPositions_qty [simp]: "customPositions (st\<lparr>qty := q\<rparr>) = customPositions st"
  by (simp add: customPositions_def allLetterPositions_def Let_def)

lemma totalPossible_qty [simp]: "totalPossible (st\<lparr>qty := q\<rparr>) = totalPossible st"
  by (simp add: totalPossible_def lettersCount_def)

lemma totalPossible_pos: "1 \<le> totalPossible st"
  by (simp add: totalPossible_def push_bit_eq_mult)

section \<open>Quantity and masks\<close>

lemma valid_quantity:
  assumes "isFinite q" and "\<not> num_le q 0" and "BigInt (Math_min q 5000) = Inr want"
  shows "1 \<le> want \<and> want \<le> 5000"
proof (cases q)
  case (Finite r)
  with assms(2) have pos: "0 < r" by (simp add: num_le_def)
  from assms(3) Finite have "BigInt (Finite (min r 5000)) = Inr want"
    by (simp add: Math_min_def)
  then have eq: "(of_int want :: rat) = min r 5000"
    by (auto simp: BigInt_def split: if_splits)
  from pos have "0 < min r 5000" by simp
  with eq have "0 < (of_int want :: rat)" by (simp only:)
  then have "0 < want" by simp
  moreover have "(of_int want :: rat) \<le> 5000" by (simp only: eq)
  then have "want \<le> 5000" by linarith
  ultimately show ?thesis by simp
qed (use assms in \<open>simp_all add: isFinite_def\<close>)

lemma draw_bounds: "0 \<le> randomBigInt r \<and> randomBigInt r < 2 ^ 53"
proof -
  have "uint r < 2 ^ 53" using uint_bounded [of r] by simp
  moreover have "0 \<le> uint r" by simp
  ultimately show ?thesis by (simp add: randomBigInt_def take_bit_int_eq_self)
qed

lemma pick_range:
  "0 < mx \<Longrightarrow> \<exists>p. bigint_rem (randomBigInt r) mx = Inr p \<and> p = randomBigInt r mod mx \<and> 0 \<le> p \<and> p < mx"
  using draw_bounds [of r] by (simp add: bigint_rem_def sgn_if)

lemma set_add_maskSet:
  "maskSet mx s \<Longrightarrow> 0 \<le> p \<Longrightarrow> p < mx \<Longrightarrow> maskSet mx (set_add p s)"
  by (auto simp: maskSet_def set_add_def)

lemma set_add_length:
  "length (set_add p s) \<le> Suc (length s)"
  by (simp add: set_add_def)

lemma set_set_add: "set (set_add p s) = insert p (set s)"
  by (auto simp: set_add_def)

text \<open>The loop is unfolded by hand, one draw at a time.\<close>

declare sampleLoop.simps [simp del]

lemma sampleLoop_Nil:
  "sampleLoop mx k [] s = (if int (length s) < k then Hang else Done s)"
  by (simp add: sampleLoop.simps [of mx k "[]" s])

lemma sampleLoop_Cons:
  "sampleLoop mx k (r # rs) s =
     (if int (length s) < k then
        (case bigint_rem (randomBigInt r) mx of
           Inl e \<Rightarrow> Throw e
         | Inr pick \<Rightarrow> sampleLoop mx k rs (set_add pick s))
      else Done s)"
  by (simp add: sampleLoop.simps [of mx k "r # rs" s])

lemma sampleLoop_Done:
  "0 < mx \<Longrightarrow> maskSet mx s \<Longrightarrow> int (length s) \<le> k \<Longrightarrow> sampleLoop mx k rs s = Done s' \<Longrightarrow>
   maskSet mx s' \<and> int (length s') = k"
proof (induction rs arbitrary: s)
  case Nil
  then show ?case by (auto simp: sampleLoop_Nil split: if_splits)
next
  case (Cons r rs)
  show ?case
  proof (cases "int (length s) < k")
    case False
    with Cons.prems show ?thesis by (auto simp: sampleLoop_Cons)
  next
    case True
    from pick_range [OF Cons.prems(1), of r] obtain p
      where p: "bigint_rem (randomBigInt r) mx = Inr p" "0 \<le> p" "p < mx" by auto
    with True Cons.prems(4) have run: "sampleLoop mx k rs (set_add p s) = Done s'"
      by (simp add: sampleLoop_Cons)
    have "maskSet mx (set_add p s)" using Cons.prems(2) p by (simp add: set_add_maskSet)
    moreover have "int (length (set_add p s)) \<le> k"
      using True set_add_length [of p s] by linarith
    ultimately show ?thesis using Cons.IH [OF Cons.prems(1) _ _ run] by simp
  qed
qed

lemma sampleLoop_no_Throw:
  "0 < mx \<Longrightarrow> sampleLoop mx k rs s \<noteq> Throw e"
proof (induction rs arbitrary: s)
  case Nil
  then show ?case by (simp add: sampleLoop_Nil)
next
  case (Cons r rs)
  from pick_range [OF Cons.prems, of r] obtain p
    where p: "bigint_rem (randomBigInt r) mx = Inr p" by auto
  with Cons.IH [OF Cons.prems] show ?case by (simp add: sampleLoop_Cons)
qed

lemma sampleLoop_returns:
  "0 < mx \<Longrightarrow> distinct s \<Longrightarrow>
   k \<le> int (card (set s \<union> (\<lambda>r. randomBigInt r mod mx) ` set rs)) \<Longrightarrow>
   \<exists>s'. sampleLoop mx k rs s = Done s'"
proof (induction rs arbitrary: s)
  case Nil
  then have "k \<le> int (length s)" by (simp add: distinct_card)
  then show ?case by (simp add: sampleLoop_Nil)
next
  case (Cons r rs)
  show ?case
  proof (cases "int (length s) < k")
    case False
    then show ?thesis by (simp add: sampleLoop_Cons)
  next
    case True
    from pick_range [OF Cons.prems(1), of r] obtain p
      where p: "bigint_rem (randomBigInt r) mx = Inr p" "p = randomBigInt r mod mx" by auto
    have d: "distinct (set_add p s)" using Cons.prems(2) by (simp add: set_add_def)
    have "set (set_add p s) \<union> (\<lambda>r. randomBigInt r mod mx) ` set rs
          = set s \<union> (\<lambda>r. randomBigInt r mod mx) ` set (r # rs)"
      using p(2) by (auto simp: set_set_add)
    with Cons.prems(3) have "k \<le> int (card (set (set_add p s) \<union> (\<lambda>r. randomBigInt r mod mx) ` set rs))"
      by simp
    from Cons.IH [OF Cons.prems(1) d this] True p(1) show ?thesis
      by (simp add: sampleLoop_Cons)
  qed
qed

lemma sampleLoop_exhausted:
  "0 < mx \<Longrightarrow> mx < k \<Longrightarrow> maskSet mx s \<Longrightarrow> sampleLoop mx k rs s = Hang"
proof (induction rs arbitrary: s)
  case Nil
  have "card (set s) \<le> card {0..<mx}"
    using Nil.prems(3) by (intro card_mono) (auto simp: maskSet_def)
  then have "int (length s) \<le> mx" using Nil.prems by (simp add: maskSet_def distinct_card)
  with Nil.prems(2) show ?case by (simp add: sampleLoop_Nil)
next
  case (Cons r rs)
  have "card (set s) \<le> card {0..<mx}"
    using Cons.prems(3) by (intro card_mono) (auto simp: maskSet_def)
  then have small: "int (length s) < k" using Cons.prems by (simp add: maskSet_def distinct_card)
  from pick_range [OF Cons.prems(1), of r] obtain p
    where p: "bigint_rem (randomBigInt r) mx = Inr p" "0 \<le> p" "p < mx" by auto
  have "maskSet mx (set_add p s)" using Cons.prems(3) p by (simp add: set_add_maskSet)
  from Cons.IH [OF Cons.prems(1,2) this] small p(1) show ?case
    by (simp add: sampleLoop_Cons)
qed

lemma fresh_draws:
  assumes "n \<le> 5000" and "100000 < mx"
  shows "(\<lambda>r. randomBigInt r mod mx) ` set (map of_nat [0..<n]) = int ` {0..<n}"
proof -
  have "randomBigInt (of_nat i) mod mx = int i" if "i < n" for i
  proof -
    from that assms(1) have "i < 2 ^ 53" by simp
    then have "uint (of_nat i :: draw) = int i"
      by (simp add: uint_nat unat_of_nat)
    moreover from \<open>i < 2 ^ 53\<close> have "int i < 2 ^ 64" by simp
    ultimately have "randomBigInt (of_nat i) = int i"
      by (simp add: randomBigInt_def take_bit_int_eq_self)
    with that assms show ?thesis by simp
  qed
  then show ?thesis by (auto simp: image_iff) 
qed

lemma picksOf_enumerates:
  "mx \<le> 100000 \<Longrightarrow> picksOf mx want rs = Done (map int [0..<nat (min mx want)])"
  by (simp add: picksOf_def min_def)

lemma picksOf_samples:
  assumes "100000 < mx" and "1 \<le> want" and "want \<le> 5000"
  shows "(picksOf mx want rs = Done picks \<longrightarrow>
            distinct picks \<and> (\<forall>m\<in>set picks. 0 \<le> m \<and> m < mx) \<and> int (length picks) = want)"
    and "picksOf mx want rs \<noteq> Throw e"
    and "want \<le> int (length (remdups (map (\<lambda>r. randomBigInt r mod mx) rs))) \<Longrightarrow>
           picksOf mx want rs \<noteq> Hang"
    and "\<exists>rs' picks'. picksOf mx want rs' = Done picks'"
proof -
  have mx: "0 < mx" using assms(1) by simp
  have unfold: "picksOf mx want rs = sampleLoop mx want rs []" for rs
    using assms(1) by (simp add: picksOf_def sampleUniqueBigInt_def)
  have empty: "maskSet mx []" by (simp add: maskSet_def)
  show "picksOf mx want rs = Done picks \<longrightarrow>
            distinct picks \<and> (\<forall>m\<in>set picks. 0 \<le> m \<and> m < mx) \<and> int (length picks) = want"
    using sampleLoop_Done [OF mx empty, of want rs picks] assms(2)
    by (simp add: unfold maskSet_def)
  show "picksOf mx want rs \<noteq> Throw e"
    using sampleLoop_no_Throw [OF mx] by (simp add: unfold)
  have returns: "\<exists>s'. sampleLoop mx want rs [] = Done s'"
    if "want \<le> int (length (remdups (map (\<lambda>r. randomBigInt r mod mx) rs)))" for rs
  proof -
    from that have "want \<le> int (card (set [] \<union> (\<lambda>r. randomBigInt r mod mx) ` set rs))"
      by (simp add: length_remdups_card_conv)
    from sampleLoop_returns [OF mx _ this] show ?thesis by simp
  qed
  show "picksOf mx want rs \<noteq> Hang"
    if "want \<le> int (length (remdups (map (\<lambda>r. randomBigInt r mod mx) rs)))"
    using returns [OF that] by (auto simp: unfold)
  let ?rs = "map of_nat [0..<nat want] :: draw list"
  have "nat want \<le> 5000" using assms(3) by simp
  from fresh_draws [OF this assms(1)]
  have img: "(\<lambda>r. randomBigInt r mod mx) ` set ?rs = int ` {0..<nat want}" .
  have "card ((\<lambda>r. randomBigInt r mod mx) ` set ?rs) = nat want"
    unfolding img by (simp add: card_image)
  then have "length (remdups (map (\<lambda>r. randomBigInt r mod mx) ?rs)) = nat want"
    by (simp only: length_remdups_card_conv set_map)
  then have "want \<le> int (length (remdups (map (\<lambda>r. randomBigInt r mod mx) ?rs)))"
    using assms(2) by linarith
  from returns [OF this] show "\<exists>rs' picks'. picksOf mx want rs' = Done picks'"
    unfolding unfold by blast
qed

text \<open>
  The helper by itself has no cap: called for more masks than there are below
  \<open>maxExclusive\<close>, it returns for no sequence of draws.  \<open>generate\<close> never calls it so:
  it samples only above 100000 and wants at most 5000.
\<close>

lemma sampleUniqueBigInt_uncapped:
  "0 < maxExclusive \<Longrightarrow> maxExclusive < k \<Longrightarrow> sampleUniqueBigInt maxExclusive k rs = Hang"
  unfolding sampleUniqueBigInt_def
  by (rule sampleLoop_exhausted) (simp_all add: maskSet_def)

section \<open>\<open>generate\<close>\<close>

lemma generate_valid:
  assumes "test EMAIL_REGEX (email st)" and "isFinite (qty st)" and "\<not> num_le (qty st) 0"
    and "BigInt (Math_min (qty st) 5000) = Inr want"
  shows "generate H rs st =
     (case picksOf (totalPossible st) want rs of
        Hang \<Rightarrow> Hang
      | Throw e \<Rightarrow> Throw e
      | Done picks \<Rightarrow>
          (case mapThrow (flipCases H (email st) (customPositions st)) picks of
             Inl e \<Rightarrow> Throw e
           | Inr out \<Rightarrow> Done (None, st\<lparr>variations := out\<rparr>)))"
  using assms by (simp add: generate_def Let_def split: run.splits)

lemma render_total:
  "\<exists>out. mapThrow (flipCases H (email st) (customPositions st)) picks = Inr out \<and>
         map Inr out = map (flipCases H (email st) (customPositions st)) picks"
proof -
  have "\<forall>m\<in>set picks. \<exists>v. flipCases H (email st) (customPositions st) m = Inr v"
    using flipCases_total [of "customPositions st" "email st"] customPositions_range [of _ st]
    by blast
  from mapThrow_total [OF this] obtain out
    where "mapThrow (flipCases H (email st) (customPositions st)) picks = Inr out" by blast
  then show ?thesis using mapThrow_Inr by blast
qed

lemma generate_enumerates:
  assumes "test EMAIL_REGEX (email st)" and "totalPossible st \<le> 100000"
    and "isFinite q" and "\<not> num_le q 0" and "BigInt (Math_min q 5000) = Inr want"
  shows "\<exists>out. generate H rs (st\<lparr>qty := q\<rparr>) = Done (None, st\<lparr>qty := q, variations := out\<rparr>) \<and>
     map Inr out = map (flipCases H (email st) (customPositions st))
                       (map int [0..<nat (min (totalPossible st) want)])"
proof -
  let ?st = "st\<lparr>qty := q\<rparr>"
  let ?picks = "map int [0..<nat (min (totalPossible st) want)]"
  from render_total [of _ ?st ?picks] obtain out
    where out: "mapThrow (flipCases H (email st) (customPositions st)) ?picks = Inr out"
      "map Inr out = map (flipCases H (email st) (customPositions st)) ?picks"
    by auto
  have "generate H rs ?st = Done (None, ?st\<lparr>variations := out\<rparr>)"
    using assms out(1)
    by (subst generate_valid [where want = want]) (simp_all add: picksOf_enumerates)
  with out(2) show ?thesis by auto
qed

lemma generate_Done_None:
  "generate H rs st = Done (None, st') \<Longrightarrow>
   \<exists>picks out. mapThrow (flipCases H (email st) (customPositions st)) picks = Inr out \<and>
               st' = st\<lparr>variations := out\<rparr>"
  by (auto simp: generate_def Let_def split: if_splits sum.splits run.splits)

text \<open>The only exception \<open>generate\<close> throws is the one of the conversion to a BigInt.\<close>

lemma picksOf_no_Throw: "0 < mx \<Longrightarrow> picksOf mx want rs \<noteq> Throw e"
  using sampleLoop_no_Throw [of mx want rs "[]" e]
  by (simp add: picksOf_def sampleUniqueBigInt_def)

lemma generate_Throw:
  assumes "generate H rs st = Throw e"
  shows "BigInt (Math_min (qty st) 5000) = Inl e"
proof -
  have pos: "0 < totalPossible st" using totalPossible_pos [of st] by simp
  from assms have v: "test EMAIL_REGEX (email st)" "isFinite (qty st)" "\<not> num_le (qty st) 0"
    by (auto simp: generate_def Let_def split: if_splits)
  show ?thesis
  proof (cases "BigInt (Math_min (qty st) 5000)")
    case (Inl e')
    with assms v show ?thesis by (simp add: generate_def Let_def)
  next
    case (Inr want)
    from render_total [of _ st] have "\<And>picks. \<exists>out. mapThrow (flipCases H (email st) (customPositions st)) picks = Inr out"
      by blast
    then have "\<And>picks e. mapThrow (flipCases H (email st) (customPositions st)) picks \<noteq> Inl e"
      by (metis Inl_Inr_False)
    with assms picksOf_no_Throw [OF pos, of want rs] show ?thesis
      unfolding generate_valid [OF v Inr] by (auto split: run.splits sum.splits)
  qed
qed

section \<open>Distinct renderings on letter positions\<close>

text \<open>
  Flipping a letter A-Z or a-z changes it.  When the positions are pairwise distinct and
  hold letters, bit \<open>b\<close> of the mask decides the entry at position \<open>b\<close>, so two
  different masks below \<open>2 ^ n\<close> render differently, and the variations of one call
  are pairwise distinct.  The default positions are of this kind.
\<close>

lemma flipEntry_letter:
  assumes "isLetter c"
  shows "\<exists>d. flipEntry H [c] = [d] \<and> d \<noteq> c"
proof -
  from assms have "c < 0x80" by (rule isLetter_ascii)
  then have le: "c \<le> 0xFF" by unat_arith
  show ?thesis
  proof (cases "0x61 \<le> c \<and> c \<le> 0x7A")
  case True
  then have up: "upperUnit H c = [c - 0x20]" by (simp add: upperUnit_def)
  have ne: "c - 0x20 \<noteq> c" by simp
  with up show ?thesis by (simp add: flipEntry_unit [OF le])
next
  case False
  with assms have cap: "0x41 \<le> c \<and> c \<le> 0x5A" by (simp add: isLetter_def)
  then have "\<not> (0x61 \<le> c)" by unat_arith
  moreover from cap have "c \<noteq> 0xB5" "c \<noteq> 0xDF" "c \<noteq> 0xFF" "\<not> (0xE0 \<le> c)" by unat_arith+
  ultimately have up: "upperUnit H c = [c]" using le by (simp add: upperUnit_def)
  from cap have lo: "lowerUnit H c = [c + 0x20]" by (simp add: lowerUnit_def)
  have "c + 0x20 \<noteq> c" by simp
  with up lo show ?thesis by (simp add: flipEntry_unit [OF le])
  qed
qed

lemma flipAt_entry:
  assumes "flipAt H ps m b arr = Inr arr'" and "ps ! b < length arr"
  shows "arr' ! (ps ! b) = (if bit m b then flipEntry H (arr ! (ps ! b)) else arr ! (ps ! b))"
  using assms by (auto simp: flipAt_def Let_def bit_iff_and_drop_bit_eq_1 split: if_splits)

lemma flipLoop_entry:
  assumes "distinct ps" and "distinct bs" and "\<forall>b\<in>set bs. b < length ps"
    and "\<forall>i\<in>set ps. i < length arr" and "flipLoop H ps m bs arr = Inr arr'" and "b < length ps"
  shows "arr' ! (ps ! b) =
           (if b \<in> set bs \<and> bit m b then flipEntry H (arr ! (ps ! b)) else arr ! (ps ! b))"
  using assms(2,3,4,5)
proof (induction bs arbitrary: arr)
  case Nil
  then show ?case by simp
next
  case (Cons b0 bs)
  from Cons.prems(4) obtain a1 where a1: "flipAt H ps m b0 arr = Inr a1"
    and rest: "flipLoop H ps m bs a1 = Inr arr'" by (auto split: sum.splits)
  have len: "length a1 = length arr" using a1 by (rule flipAt_length)
  have b0: "b0 < length ps" and b0_new: "b0 \<notin> set bs" and dbs: "distinct bs"
    using Cons.prems(1,2) by simp_all
  have IH: "arr' ! (ps ! b) =
      (if b \<in> set bs \<and> bit m b then flipEntry H (a1 ! (ps ! b)) else a1 ! (ps ! b))"
    using Cons.IH [OF dbs _ _ rest] Cons.prems(2,3) len by simp
  show ?case
  proof (cases "b = b0")
    case True
    have "ps ! b0 < length arr" using Cons.prems(3) b0 by simp
    from flipAt_entry [OF a1 this] IH True b0_new show ?thesis by simp
  next
    case False
    with assms(1,6) b0 have "ps ! b \<noteq> ps ! b0" by (simp add: nth_eq_iff_index_eq)
    from flipAt_frame [OF a1 this] IH False show ?thesis by simp
  qed
qed

lemma masks_differ:
  assumes "0 \<le> m1" "m1 < 2 ^ n" "0 \<le> m2" "m2 < 2 ^ n" "m1 \<noteq> (m2 :: int)"
  shows "\<exists>b<n. bit m1 b \<noteq> bit m2 b"
proof (rule ccontr)
  assume "\<not> (\<exists>b<n. bit m1 b \<noteq> bit m2 b)"
  then have same: "\<forall>b<n. bit m1 b = bit m2 b" by blast
  have "take_bit n m1 = take_bit n m2"
    by (rule bit_eqI) (use same in \<open>auto simp: bit_take_bit_iff\<close>)
  with assms show False by (simp add: take_bit_int_eq_self)
qed

lemma flipCases_injective:
  assumes ps: "distinct ps" "\<forall>i\<in>set ps. i < length base \<and> isLetter (base ! i)"
    and m1: "0 \<le> m1" "m1 < 2 ^ length ps" and m2: "0 \<le> m2" "m2 < 2 ^ length ps"
    and ne: "m1 \<noteq> m2"
  shows "flipCases H base ps m1 \<noteq> flipCases H base ps m2"
proof -
  let ?arr0 = "map (\<lambda>c. [c]) base"
  have rng: "\<forall>b\<in>set [0..<length ps]. ps ! b < length ?arr0" using ps(2) by simp
  have inr: "\<forall>i\<in>set ps. i < length ?arr0" using ps(2) by simp
  have a0: "asciiAt ps ?arr0"
    using ps(2) by (auto simp: asciiAt_def asciiEntry_def isLetter_ascii)
  have render: "\<exists>arr. flipLoop H ps m [0..<length ps] ?arr0 = Inr arr \<and> length arr = length base \<and>
      flipCases H base ps m = Inr (map hd arr) \<and>
      (\<forall>b<length ps. arr ! (ps ! b) = (if bit m b then flipEntry H [base ! (ps ! b)] else [base ! (ps ! b)]))" for m
  proof -
    from flipLoop_total [OF rng, of H m] obtain arr
      where arr: "flipLoop H ps m [0..<length ps] ?arr0 = Inr arr" and len: "length arr = length base"
      by auto
    from flipLoop_asciiAt [OF a0 _ arr] have "\<forall>s\<in>set arr. length s = 1" by (simp add: asciiAt_def)
    then have "concat arr = map hd arr" by (rule concat_units)
    with arr have v: "flipCases H base ps m = Inr (map hd arr)" by (simp add: flipCases_def)
    have "arr ! (ps ! b) = (if bit m b then flipEntry H [base ! (ps ! b)] else [base ! (ps ! b)])"
      if "b < length ps" for b
    proof -
      from that ps(2) have "ps ! b < length base" by simp
      with flipLoop_entry [OF ps(1) _ _ inr arr that] that show ?thesis by simp
    qed
    with arr len v show ?thesis by blast
  qed
  from render [of m1] obtain arr1 where r1: "length arr1 = length base"
    "flipCases H base ps m1 = Inr (map hd arr1)"
    "\<forall>b<length ps. arr1 ! (ps ! b) = (if bit m1 b then flipEntry H [base ! (ps ! b)] else [base ! (ps ! b)])"
    by blast
  from render [of m2] obtain arr2 where r2: "length arr2 = length base"
    "flipCases H base ps m2 = Inr (map hd arr2)"
    "\<forall>b<length ps. arr2 ! (ps ! b) = (if bit m2 b then flipEntry H [base ! (ps ! b)] else [base ! (ps ! b)])"
    by blast
  from masks_differ [OF m1 m2 ne] obtain b where b: "b < length ps" "bit m1 b \<noteq> bit m2 b" by blast
  let ?i = "ps ! b"
  from b(1) ps(2) have i: "?i < length base" "isLetter (base ! ?i)" by simp_all
  from flipEntry_letter [OF i(2)] obtain d where d: "flipEntry H [base ! ?i] = [d]" "d \<noteq> base ! ?i"
    by blast
  have "hd (arr1 ! ?i) \<noteq> hd (arr2 ! ?i)"
    using r1(3) r2(3) b d by (cases "bit m1 b") auto
  then have "map hd arr1 ! ?i \<noteq> map hd arr2 ! ?i" using i(1) r1(1) r2(1) by simp
  then have "map hd arr1 \<noteq> map hd arr2" by auto
  with r1(2) r2(2) show ?thesis by simp
qed

text \<open>
  Conversely, on pairwise distinct positions, a position whose character flips to a
  string that is not one code unit long changes the length of the variation whose mask
  has just the bit of that position.
\<close>

lemma units_total_length: "sum_list (map length (map (\<lambda>c. [c]) base)) = length base"
  by (induction base) simp_all

lemma long_flip_changes_length:
  assumes ps: "distinct ps" "\<forall>i\<in>set ps. i < length base" and b: "b < length ps"
    and long: "length (flipEntry H [base ! (ps ! b)]) \<noteq> 1"
  shows "\<exists>v. flipCases H base ps (2 ^ b) = Inr v \<and> length v \<noteq> length base"
proof -
  let ?arr0 = "map (\<lambda>c. [c]) base"
  let ?i = "ps ! b"
  let ?e = "flipEntry H [base ! ?i]"
  have i: "?i < length base" using ps(2) b by simp
  have rng: "\<forall>b\<in>set [0..<length ps]. ps ! b < length ?arr0" using ps(2) by simp
  have inr: "\<forall>i\<in>set ps. i < length ?arr0" using ps(2) by simp
  from flipLoop_total [OF rng, of H "2 ^ b"] obtain arr
    where arr: "flipLoop H ps (2 ^ b) [0..<length ps] ?arr0 = Inr arr"
      and len: "length arr = length base" by auto
  have "arr ! j = (?arr0[?i := ?e]) ! j" if j: "j < length base" for j
  proof (cases "j \<in> set ps")
    case False
    then have "\<forall>b\<in>set [0..<length ps]. j \<noteq> ps ! b" by auto
    moreover from False b have "j \<noteq> ?i" by auto
    ultimately show ?thesis using flipLoop_frame [OF arr, of j] by simp
  next
    case True
    then obtain b' where b': "b' < length ps" "j = ps ! b'" by (auto simp: in_set_conv_nth)
    have same: "j = ?i \<longleftrightarrow> b' = b" using ps(1) b b' by (simp add: nth_eq_iff_index_eq)
    from flipLoop_entry [OF ps(1) _ _ inr arr b'(1)] b' j
    have "arr ! j = (if bit (2 ^ b :: int) b' then flipEntry H [base ! j] else [base ! j])"
      by simp
    then show ?thesis using same j b'(2) by (auto simp: bit_exp_iff nth_list_update)
  qed
  then have eq: "arr = ?arr0[?i := ?e]" using len by (simp add: list_eq_iff_nth_eq)
  have "length (concat arr) = sum_list ((map length ?arr0)[?i := length ?e])"
    unfolding eq by (simp only: length_concat map_update)
  also have "\<dots> = sum_list (map length ?arr0) + length ?e - (map length ?arr0) ! ?i"
    using i by (simp add: sum_list_update)
  also have "\<dots> = length base + length ?e - 1"
    using i by (simp only: units_total_length) simp
  finally have "length (concat arr) = length base + length ?e - 1" .
  with long i have "length (concat arr) \<noteq> length base" by auto
  with arr show ?thesis by (simp add: flipCases_def)
qed

lemma default_positions_letters:
  "\<not> useCustom st \<Longrightarrow>
   distinct (customPositions st) \<and>
   (\<forall>i\<in>set (customPositions st). i < length (email st) \<and> isLetter (email st ! i))"
  by (simp add: customPositions_def allLetterPositions_def letterPositions_def)

lemma generate_Done_picks:
  assumes "generate H rs st = Done (None, st')"
  shows "\<exists>want picks. isFinite (qty st) \<and> \<not> num_le (qty st) 0 \<and>
           BigInt (Math_min (qty st) 5000) = Inr want \<and>
           picksOf (totalPossible st) want rs = Done picks \<and>
           map Inr (variations st') = map (flipCases H (email st) (customPositions st)) picks"
proof -
  from assms have v: "test EMAIL_REGEX (email st)" "isFinite (qty st)" "\<not> num_le (qty st) 0"
    by (auto simp: generate_def Let_def split: if_splits)
  with assms obtain want where want: "BigInt (Math_min (qty st) 5000) = Inr want"
    by (auto simp: generate_def Let_def split: if_splits sum.splits)
  from assms obtain picks out where p: "picksOf (totalPossible st) want rs = Done picks"
    and out: "mapThrow (flipCases H (email st) (customPositions st)) picks = Inr out"
    and st': "st' = st\<lparr>variations := out\<rparr>"
    unfolding generate_valid [OF v want] by (auto split: run.splits sum.splits)
  from mapThrow_Inr [OF out] st' v want p show ?thesis by auto
qed

lemma letter_variations_distinct:
  assumes "generate H rs st = Done (None, st')"
    and "distinct (customPositions st)"
    and "\<forall>i\<in>set (customPositions st). isLetter (email st ! i)"
  shows "distinct (variations st')"
proof -
  let ?f = "flipCases H (email st) (customPositions st)"
  from generate_Done_picks [OF assms(1)] obtain want picks
    where q: "isFinite (qty st)" "\<not> num_le (qty st) 0" "BigInt (Math_min (qty st) 5000) = Inr want"
      and p: "picksOf (totalPossible st) want rs = Done picks"
      and v: "map Inr (variations st') = map ?f picks" by blast
  have "distinct picks \<and> (\<forall>m\<in>set picks. 0 \<le> m \<and> m < totalPossible st)"
  proof (cases "totalPossible st \<le> 100000")
    case True
    have "1 \<le> totalPossible st" by (rule totalPossible_pos)
    with p True valid_quantity [OF q] show ?thesis
      by (auto simp: picksOf_enumerates distinct_map)
  next
    case False
    then have "100000 < totalPossible st" by simp
    from picksOf_samples(1) [OF this, of want rs picks] valid_quantity [OF q] p
    show ?thesis by simp
  qed
  then have d: "distinct picks" and r: "\<forall>m\<in>set picks. 0 \<le> m \<and> m < 2 ^ length (customPositions st)"
    by (simp_all add: totalPossible_def lettersCount_def push_bit_eq_mult)
  have ps: "\<forall>i\<in>set (customPositions st). i < length (email st) \<and> isLetter (email st ! i)"
    using assms(3) customPositions_range [of _ st] by blast
  have "inj_on ?f (set picks)"
  proof (rule inj_onI)
    fix x y assume "x \<in> set picks" "y \<in> set picks" "?f x = ?f y"
    with r flipCases_injective [OF assms(2) ps, where ?m1.0 = x and ?m2.0 = y] show "x = y" by blast
  qed
  with d have "distinct (map ?f picks)" by (simp add: distinct_map)
  then have "distinct (map (Inr :: jsstring \<Rightarrow> js_error + jsstring) (variations st'))"
    by (simp only: v)
  then show ?thesis by (simp add: distinct_map)
qed

text \<open>A quantity that is not finite or not positive is turned down by the alert.\<close>

lemma invalid_quantity_returns:
  "test EMAIL_REGEX (email st) \<Longrightarrow> \<not> isFinite (qty st) \<or> num_le (qty st) 0 \<Longrightarrow>
   generate H rs st = Done (Some quantityAlert, st)"
  by (auto simp: generate_def)

section \<open>The claims\<close>

subsection \<open>The size of the space\<close>

text \<open>
  C1. For every source string and every set of active positions, of length \<open>n\<close>, the
  computed size of the space is \<open>2 ^ n\<close> exactly, as an unbounded integer: 1 for
  \<open>n = 0\<close>, and with no loss of precision at 64 positions and beyond.
\<close>

theorem totalPossible_power:
  "totalPossible st = 2 ^ length (customPositions st)"
  by (simp add: totalPossible_def lettersCount_def push_bit_eq_mult)

subsection \<open>Exhausting the space while sampling\<close>



subsection \<open>The range of one draw\<close>

text \<open>
  C3 asks that every value below the size of the space be a possible draw.  One draw is
  a random integer below \<open>2 ^ 53\<close> reduced modulo the size of the space, so for a space
  of 54 positions the mask \<open>2 ^ 53\<close>, which lies in the space, is the outcome of no
  draw.
\<close>

theorem draw_misses_high_masks:
  "bigint_rem (randomBigInt r) (2 ^ 54) \<noteq> Inr (2 ^ 53)"
  using draw_bounds [of r] by (simp add: bigint_rem_def sgn_if)

subsection \<open>The masks\<close>

text \<open>
  C4. For a valid quantity (finite, positive, and an integer once clamped to 5000) the
  masks that are produced are pairwise distinct, each at least 0 and below the size of
  the space, and their number is the minimum of the wanted count and the size of the
  space.  Producing them never throws; it returns as soon as the random source has
  delivered as many distinct masks as are wanted (at once when the masks are
  enumerated), and some sequence of draws does so.
\<close>

theorem mask_generator_contract:
  assumes "isFinite q" and "\<not> num_le q 0" and "BigInt (Math_min q 5000) = Inr want"
  shows "(\<forall>picks. picksOf (totalPossible st) want rs = Done picks \<longrightarrow>
            distinct picks \<and> (\<forall>m\<in>set picks. 0 \<le> m \<and> m < totalPossible st) \<and>
            int (length picks) = min want (totalPossible st)) \<and>
         (\<forall>e. picksOf (totalPossible st) want rs \<noteq> Throw e) \<and>
         (want \<le> int (length (remdups (map (\<lambda>r. randomBigInt r mod totalPossible st) rs))) \<longrightarrow>
            picksOf (totalPossible st) want rs \<noteq> Hang) \<and>
         (\<exists>rs' picks'. picksOf (totalPossible st) want rs' = Done picks')"
proof (cases "totalPossible st \<le> 100000")
  case True
  have pos: "1 \<le> totalPossible st" by (rule totalPossible_pos)
  from valid_quantity [OF assms] have w: "1 \<le> want" by simp
  have p: "picksOf (totalPossible st) want rs = Done (map int [0..<nat (min (totalPossible st) want)])" for rs
    using True by (rule picksOf_enumerates)
  let ?n = "nat (min (totalPossible st) want)"
  have n: "int ?n = min want (totalPossible st)"
    using pos w by linarith
  show ?thesis
  proof (intro conjI allI impI)
    fix picks assume "picksOf (totalPossible st) want rs = Done picks"
    then have picks: "picks = map int [0..<?n]" by (simp only: p run.inject)
    show "distinct picks" by (simp add: picks distinct_map)
    show "int (length picks) = min want (totalPossible st)" using n by (simp add: picks)
    show "\<forall>m\<in>set picks. 0 \<le> m \<and> m < totalPossible st"
      using n by (auto simp: picks)
  next
    fix e show "picksOf (totalPossible st) want rs \<noteq> Throw e" by (simp only: p) simp
  next
    show "picksOf (totalPossible st) want rs \<noteq> Hang" by (simp only: p) simp
  next
    show "\<exists>rs' picks'. picksOf (totalPossible st) want rs' = Done picks'"
      using p by blast
  qed
next
  case False
  then have big: "100000 < totalPossible st" by simp
  from valid_quantity [OF assms] have w: "1 \<le> want" "want \<le> 5000" by simp_all
  from w big have m: "min want (totalPossible st) = want" by simp
  note S = picksOf_samples [OF big w]
  show ?thesis
    unfolding m
  proof (intro conjI allI impI)
    fix picks assume "picksOf (totalPossible st) want rs = Done picks"
    with S(1) [of rs picks] show "distinct picks" and "int (length picks) = want"
      and "\<forall>m\<in>set picks. 0 \<le> m \<and> m < totalPossible st" by simp_all
  next
    fix e show "picksOf (totalPossible st) want rs \<noteq> Throw e" by (rule S(2))
  next
    assume "want \<le> int (length (remdups (map (\<lambda>r. randomBigInt r mod totalPossible st) rs)))"
    then show "picksOf (totalPossible st) want rs \<noteq> Hang" by (rule S(3))
  next
    show "\<exists>rs' picks'. picksOf (totalPossible st) want rs' = Done picks'" by (rule S(4))
  qed
qed

text \<open>An instance in sampling mode: 19 letters, two masks wanted, the draws 5, 5 and 9.\<close>

theorem mask_generator_contract_witness:
  "isFinite (Finite 2) \<and> \<not> num_le (Finite 2) 0 \<and> BigInt (Math_min (Finite 2) 5000) = Inr 2 \<and>
   100000 < totalPossible (exampleState ''abcdefghijklmnopq@b.c'' (Finite 2)) \<and>
   picksOf (totalPossible (exampleState ''abcdefghijklmnopq@b.c'' (Finite 2))) 2 [5, 5, 9]
     = Done [5, 9] \<and>
   distinct [5, 9 :: int] \<and>
   int (length [5, 9 :: int]) = min 2 (totalPossible (exampleState ''abcdefghijklmnopq@b.c'' (Finite 2))) \<and>
   picksOf (totalPossible (exampleState ''abcdefghijklmnopq@b.c'' (Finite 2))) 2 [5, 5, 9] \<noteq> Hang"
proof -
  let ?st = "exampleState ''abcdefghijklmnopq@b.c'' (Finite 2)"
  have h1: "isFinite (Finite 2)" by code_simp
  have h2: "\<not> num_le (Finite 2) 0" by code_simp
  have h3: "BigInt (Math_min (Finite 2) 5000) = Inr 2" by code_simp
  have big: "100000 < totalPossible ?st" by code_simp
  have run: "picksOf (totalPossible ?st) 2 [5, 5, 9] = Done [5, 9]" by code_simp
  note C = mask_generator_contract [OF h1 h2 h3, of ?st "[5, 5, 9]"]
  from C run have "distinct [5, 9 :: int] \<and> int (length [5, 9 :: int]) = min 2 (totalPossible ?st)"
    by blast
  moreover from run have "picksOf (totalPossible ?st) 2 [5, 5, 9] \<noteq> Hang" by simp
  ultimately show ?thesis using h1 h2 h3 big run by blast
qed

subsection \<open>Distinct variations\<close>

text \<open>
  C5 asks that all variations of one call be pairwise distinct whenever the wanted count
  is at most the size of the space, also for a custom list of indexes.  The custom list
  is not deduplicated: for "a@b.co" with the custom indexes 0 and 0 and a quantity of 4,
  the space has size 4 and the four variations are "a@b.co", "A@b.co", "A@b.co",
  "a@b.co".  (On pairwise distinct positions that hold letters, the default ones among
  them, the variations are distinct: \<open>letter_variations_distinct\<close>.)
\<close>

theorem duplicate_indexes_repeat_variations:
  "generate H [] (customState ''a@b.co'' (Finite 4) [Finite 0, Finite 0])
     = Done (None, (customState ''a@b.co'' (Finite 4) [Finite 0, Finite 0])
                     \<lparr>variations := map js [''a@b.co'', ''A@b.co'', ''A@b.co'', ''a@b.co'']\<rparr>) \<and>
   totalPossible (customState ''a@b.co'' (Finite 4) [Finite 0, Finite 0]) = 4 \<and>
   \<not> distinct (map js [''a@b.co'', ''A@b.co'', ''A@b.co'', ''a@b.co''])"
  by code_simp

theorem duplicate_indexes_witness:
  "\<forall>H. \<exists>out. generate H [] (customState ''a@b.co'' (Finite 4) [Finite 0, Finite 0])
            = Done (None, (customState ''a@b.co'' (Finite 4) [Finite 0, Finite 0])\<lparr>variations := out\<rparr>) \<and>
         \<not> distinct out"
  using duplicate_indexes_repeat_variations by blast

subsection \<open>What a variation leaves alone\<close>

text \<open>
  C6, as stated: every variation has the length of the source and differs from it only
  at active positions.  A custom index may point at a character whose case conversion
  is longer than one code unit: with the sharp s (U+00DF) at index 0 of the source, whose
  upper case is "SS" on every host, the second variation is one unit longer than the
  source.
\<close>

theorem sharp_s_changes_length:
  "\<forall>H. generate H [] (customState (CHR 0xDF # ''@b.c'') (Finite 2) [Finite 0])
     = Done (None, (customState (CHR 0xDF # ''@b.c'') (Finite 2) [Finite 0])
                     \<lparr>variations := [js (CHR 0xDF # ''@b.c''), js ''SS@b.c'']\<rparr>) \<and>
   length (js ''SS@b.c'') \<noteq> length (email (customState (CHR 0xDF # ''@b.c'') (Finite 2) [Finite 0]))"
proof
  fix H
  show "generate H [] (customState (CHR 0xDF # ''@b.c'') (Finite 2) [Finite 0])
     = Done (None, (customState (CHR 0xDF # ''@b.c'') (Finite 2) [Finite 0])
                     \<lparr>variations := [js (CHR 0xDF # ''@b.c''), js ''SS@b.c'']\<rparr>) \<and>
   length (js ''SS@b.c'') \<noteq> length (email (customState (CHR 0xDF # ''@b.c'') (Finite 2) [Finite 0]))"
    by code_simp
qed

text \<open>
  C6, amended.  Every variation that \<open>generate\<close> stores has the length of the source,
  and every character of the source at an index that is not an active position stands
  unmodified at the same index, provided the case flips at the active positions yield
  single code units: for every active position, flipping its character any number of
  times up to the number of times the position is listed gives a string of one code
  unit.  The default positions (the letters A-Z and a-z) meet the proviso on every host,
  and so do positions holding Basic Latin or plain Latin-1 characters
  (\<open>plain_positions_keep_units\<close>); a position whose character flips to a longer
  string does change the length (\<open>long_flip_changes_length\<close>).
\<close>

theorem variations_frame:
  assumes "generate H rs st = Done (None, st')"
    and "\<not> useCustom st \<or>
         (\<forall>i\<in>set (customPositions st). \<forall>k\<le>count_list (customPositions st) i.
             length ((flipEntry H ^^ k) [email st ! i]) = 1)"
    and "v \<in> set (variations st')"
  shows "length v = length (email st) \<and>
         (\<forall>i<length (email st). i \<notin> set (customPositions st) \<longrightarrow> v ! i = email st ! i)"
proof -
  from generate_Done_None [OF assms(1)] obtain picks out
    where out: "mapThrow (flipCases H (email st) (customPositions st)) picks = Inr out"
      and st': "st' = st\<lparr>variations := out\<rparr>" by blast
  from assms(3) st' have "v \<in> set out" by simp
  from mapThrow_set [OF out this] obtain m
    where m: "flipCases H (email st) (customPositions st) m = Inr v" by blast
  have rng: "\<forall>i\<in>set (customPositions st). i < length (email st)"
    using customPositions_range [of _ st] by blast
  have unit: "\<forall>i\<in>set (customPositions st). \<forall>k\<le>count_list (customPositions st) i.
      length ((flipEntry H ^^ k) [email st ! i]) = 1"
  proof (cases "useCustom st")
    case True
    with assms(2) show ?thesis by blast
  next
    case False
    show ?thesis
    proof (intro ballI allI impI)
      fix i k assume "i \<in> set (customPositions st)"
      with False have "email st ! i < 0x80" by (rule default_positions_ascii)
      from ascii_flips [OF this, where H = H and k = k] show "length ((flipEntry H ^^ k) [email st ! i]) = 1"
        by (auto simp: asciiEntry_def)
    qed
  qed
  from flipCases_frame [OF rng unit, of m] m show ?thesis by simp
qed

text \<open>
  An instance with a custom index on a character outside Basic Latin: e with acute accent
  (U+00E9) at index 0, whose upper case is U+00C9.
\<close>

theorem variations_frame_witness:
  "\<forall>H. generate H [] (customState (CHR 0xE9 # ''@b.c'') (Finite 2) [Finite 0])
     = Done (None, (customState (CHR 0xE9 # ''@b.c'') (Finite 2) [Finite 0])
                     \<lparr>variations := [js (CHR 0xE9 # ''@b.c''), js (CHR 0xC9 # ''@b.c'')]\<rparr>) \<and>
   customPositions (customState (CHR 0xE9 # ''@b.c'') (Finite 2) [Finite 0]) = [0] \<and>
   length (js (CHR 0xC9 # ''@b.c'')) = length (js (CHR 0xE9 # ''@b.c'')) \<and>
   js (CHR 0xC9 # ''@b.c'') ! 1 = js (CHR 0xE9 # ''@b.c'') ! 1 \<and>
   js (CHR 0xC9 # ''@b.c'') ! 4 = js (CHR 0xE9 # ''@b.c'') ! 4"
proof
  fix H
  let ?st = "customState (CHR 0xE9 # ''@b.c'') (Finite 2) [Finite 0]"
  let ?src = "js (CHR 0xE9 # ''@b.c'')"
  let ?v = "js (CHR 0xC9 # ''@b.c'')"
  let ?st' = "?st\<lparr>variations := [?src, ?v]\<rparr>"
  have run: "generate H [] ?st = Done (None, ?st')" by code_simp
  have e: "email ?st = ?src" by (simp add: customState_def)
  have pos: "customPositions ?st = [0]" by code_simp
  have len: "length ?src = 5" by (simp add: js_def)
  have plain: "latin1Plain (?src ! 0)" by code_simp
  have "\<forall>i\<in>set (customPositions ?st). \<forall>k\<le>count_list (customPositions ?st) i.
      length ((flipEntry H ^^ k) [email ?st ! i]) = 1"
  proof (intro ballI allI impI)
    fix i k assume "i \<in> set (customPositions ?st)"
    then have "i = 0" by (simp add: pos)
    with plain latin1_flips [where c = "?src ! 0" and H = H and k = k]
    show "length ((flipEntry H ^^ k) [email ?st ! i]) = 1" by (auto simp: e)
  qed
  then have hyp: "\<not> useCustom ?st \<or>
      (\<forall>i\<in>set (customPositions ?st). \<forall>k\<le>count_list (customPositions ?st) i.
          length ((flipEntry H ^^ k) [email ?st ! i]) = 1)" ..
  have mem: "?v \<in> set (variations ?st')" by simp
  from variations_frame [OF run hyp mem]
  have "length ?v = length ?src \<and> (\<forall>i<5. i \<notin> set [0 :: nat] \<longrightarrow> ?v ! i = ?src ! i)"
    unfolding e pos len .
  then have "length ?v = length ?src \<and> ?v ! 1 = ?src ! 1 \<and> ?v ! 4 = ?src ! 4"
    by simp
  with run pos show "generate H [] ?st = Done (None, ?st') \<and> customPositions ?st = [0] \<and>
      length ?v = length ?src \<and> ?v ! 1 = ?src ! 1 \<and> ?v ! 4 = ?src ! 4"
    by blast
qed

subsection \<open>Quantities that are not integers\<close>

text \<open>
  C7 asks that a quantity that is not a positive finite integer be rejected by
  validation, with no variations produced.  Validation only tests that the quantity is
  finite and positive.  The quantity 2.5 passes it and the conversion to a BigInt throws
  a RangeError; the quantity 6000.5 passes it, is clamped to 5000, and variations are
  produced (all 8 of "a@b.c").  (Quantities that are not finite or not positive are
  turned down: \<open>invalid_quantity_returns\<close>.)
\<close>

theorem fractional_quantity_not_rejected:
  "generate H rs (exampleState ''a@b.c'' (Finite (5 / 2))) = Throw RangeError \<and>
   generate H [] (exampleState ''a@b.c'' (Finite (12001 / 2)))
     = Done (None, (exampleState ''a@b.c'' (Finite (12001 / 2)))
          \<lparr>variations := map js [''a@b.c'', ''A@b.c'', ''a@B.c'', ''A@B.c'',
                                  ''a@b.C'', ''A@b.C'', ''a@B.C'', ''A@B.C'']\<rparr>)"
  by code_simp

theorem fractional_quantity_witness:
  "\<forall>H. generate H [] (exampleState ''a@b.c'' (Finite (5 / 2)))
       \<noteq> Done (Some quantityAlert, exampleState ''a@b.c'' (Finite (5 / 2))) \<and>
     generate H [] (exampleState ''a@b.c'' (Finite (12001 / 2)))
       \<noteq> Done (Some quantityAlert, exampleState ''a@b.c'' (Finite (12001 / 2)))"
proof
  fix H
  from fractional_quantity_not_rejected [of H "[]"]
  show "generate H [] (exampleState ''a@b.c'' (Finite (5 / 2)))
       \<noteq> Done (Some quantityAlert, exampleState ''a@b.c'' (Finite (5 / 2))) \<and>
     generate H [] (exampleState ''a@b.c'' (Finite (12001 / 2)))
       \<noteq> Done (Some quantityAlert, exampleState ''a@b.c'' (Finite (12001 / 2)))"
    by simp
qed

subsection \<open>Enumeration\<close>

text \<open>
  C8. Whenever the space has at most 100000 members, \<open>generate\<close> takes exactly the
  masks \<open>0, 1, ..., upto - 1\<close> in this order, where \<open>upto\<close> is the minimum of the size of
  the space and the wanted count, and stores their renderings; so the variations of a run
  with a smaller quantity are a prefix of those of a run with a larger quantity on the
  same source and positions.
\<close>

theorem enumeration_prefix:
  assumes "test EMAIL_REGEX (email st)" and "totalPossible st \<le> 100000"
    and "isFinite q1" and "\<not> num_le q1 0" and "BigInt (Math_min q1 5000) = Inr want1"
    and "isFinite q2" and "\<not> num_le q2 0" and "BigInt (Math_min q2 5000) = Inr want2"
    and "want1 \<le> want2"
  shows "picksOf (totalPossible st) want1 rs1 = Done (map int [0..<nat (min (totalPossible st) want1)]) \<and>
    (\<exists>out1 out2.
       generate H rs1 (st\<lparr>qty := q1\<rparr>) = Done (None, st\<lparr>qty := q1, variations := out1\<rparr>) \<and>
       generate H rs2 (st\<lparr>qty := q2\<rparr>) = Done (None, st\<lparr>qty := q2, variations := out2\<rparr>) \<and>
       map Inr out1 = map (flipCases H (email st) (customPositions st))
                          (map int [0..<nat (min (totalPossible st) want1)]) \<and>
       prefix out1 out2)"
proof -
  let ?f = "flipCases H (email st) (customPositions st)"
  let ?n1 = "nat (min (totalPossible st) want1)"
  let ?n2 = "nat (min (totalPossible st) want2)"
  from generate_enumerates [OF assms(1,2) assms(3,4,5), of H rs1] obtain out1
    where g1: "generate H rs1 (st\<lparr>qty := q1\<rparr>) = Done (None, st\<lparr>qty := q1, variations := out1\<rparr>)"
      and m1: "map Inr out1 = map ?f (map int [0..<?n1])" by blast
  from generate_enumerates [OF assms(1,2) assms(6,7,8), of H rs2] obtain out2
    where g2: "generate H rs2 (st\<lparr>qty := q2\<rparr>) = Done (None, st\<lparr>qty := q2, variations := out2\<rparr>)"
      and m2: "map Inr out2 = map ?f (map int [0..<?n2])" by blast
  have le: "?n1 \<le> ?n2" using assms(9) by simp
  then have "[0..<?n1] = take ?n1 [0..<?n2]" by (simp add: take_upt)
  then have "map Inr out1 = take ?n1 (map Inr out2 :: (js_error + jsstring) list)"
    by (simp only: m1 m2 take_map)
  then have "map (Inr :: jsstring \<Rightarrow> js_error + jsstring) out1 = map Inr (take ?n1 out2)"
    by (simp add: take_map)
  then have "out1 = take ?n1 out2"
    by (simp add: inj_map_eq_map)
  then have "prefix out1 out2" by (metis take_is_prefix)
  with g1 g2 m1 assms(2) show ?thesis
    by (auto simp: picksOf_enumerates)
qed

theorem enumeration_prefix_witness:
  "\<forall>H. test EMAIL_REGEX (email (exampleState ''a@b.c'' (Finite 1))) \<and>
   totalPossible (exampleState ''a@b.c'' (Finite 1)) \<le> 100000 \<and>
   BigInt (Math_min (Finite 2) 5000) = Inr 2 \<and> BigInt (Math_min (Finite 3) 5000) = Inr 3 \<and>
   picksOf (totalPossible (exampleState ''a@b.c'' (Finite 1))) 2 [] = Done [0, 1] \<and>
   (\<exists>out1 out2.
      generate H [] ((exampleState ''a@b.c'' (Finite 1))\<lparr>qty := Finite 2\<rparr>)
        = Done (None, (exampleState ''a@b.c'' (Finite 1))\<lparr>qty := Finite 2, variations := out1\<rparr>) \<and>
      generate H [] ((exampleState ''a@b.c'' (Finite 1))\<lparr>qty := Finite 3\<rparr>)
        = Done (None, (exampleState ''a@b.c'' (Finite 1))\<lparr>qty := Finite 3, variations := out2\<rparr>) \<and>
      prefix out1 out2)"
  (is "\<forall>H. ?P H")
proof
  fix H
  let ?st = "exampleState ''a@b.c'' (Finite 1)"
  have h1: "test EMAIL_REGEX (email ?st)" by code_simp
  have h2: "totalPossible ?st \<le> 100000" by code_simp
  have a1: "isFinite (Finite 2)" and a2: "\<not> num_le (Finite 2) 0"
    and a3: "BigInt (Math_min (Finite 2) 5000) = Inr 2" by code_simp+
  have b1: "isFinite (Finite 3)" and b2: "\<not> num_le (Finite 3) 0"
    and b3: "BigInt (Math_min (Finite 3) 5000) = Inr 3" by code_simp+
  have le: "(2 :: int) \<le> 3" by simp
  have n: "map int [0..<nat (min (totalPossible ?st) 2)] = [0, 1]" by code_simp
  note E = enumeration_prefix [OF h1 h2 a1 a2 a3 b1 b2 b3 le, of "[]" H "[]"]
  from E have "picksOf (totalPossible ?st) 2 [] = Done [0, 1]" unfolding n by blast
  moreover from E have "\<exists>out1 out2.
      generate H [] (?st\<lparr>qty := Finite 2\<rparr>) = Done (None, ?st\<lparr>qty := Finite 2, variations := out1\<rparr>) \<and>
      generate H [] (?st\<lparr>qty := Finite 3\<rparr>) = Done (None, ?st\<lparr>qty := Finite 3, variations := out2\<rparr>) \<and>
      prefix out1 out2" by blast
  ultimately show "?P H" using h1 h2 a3 b3 by blast
qed

subsection \<open>The scenario "ab"\<close>

text \<open>
  C9. For the source "ab" the active positions are 0 and 1, the space has size 4, and the
  masks 0, 1, 2, 3 render to "ab", "Ab", "aB", "AB": bit 0 of a mask controls the
  character at the first active position, bit 1 the character at the second.
\<close>

theorem ab_scenario:
  "customPositions (exampleState ''ab'' (Finite 4)) = [0, 1] \<and>
   totalPossible (exampleState ''ab'' (Finite 4)) = 4 \<and>
   map (flipCases H (js ''ab'') [0, 1]) [0, 1, 2, 3] = map Inr [js ''ab'', js ''Ab'', js ''aB'', js ''AB'']"
  by code_simp

subsection \<open>Sources that are not shaped like an address\<close>

text \<open>
  C10. For a source that does not match \<open>/.+@.+\..+/\<close>, \<open>generate\<close> raises the alert
  and returns at once: no mask is generated, nothing is rendered, whatever the random
  source and the quantity are, and the state, with the variations produced before, is
  left as it was.
\<close>

theorem invalid_email_returns:
  "\<not> test EMAIL_REGEX (email st) \<Longrightarrow> generate H rs st = Done (Some emailAlert, st)"
  by (simp add: generate_def)

theorem invalid_email_returns_witness:
  "\<forall>H. \<not> test EMAIL_REGEX (email (exampleState ''ab'' (Finite 4))) \<and>
     generate H [] (exampleState ''ab'' (Finite 4))
       = Done (Some emailAlert, exampleState ''ab'' (Finite 4))"
  (is "\<forall>H. ?P H")
proof
  fix H
  have h: "\<not> test EMAIL_REGEX (email (exampleState ''ab'' (Finite 4)))" by code_simp
  from invalid_email_returns [OF h, of H "[]"] h show "?P H" by blast
qed

end
